theory Spec2Isabelle
  imports Main "HOL-Library.Word" "HOL-Library.Multiset"
begin

section \<open>Dataset and DataLoader (include/data/data.hpp)\<close>

text \<open>
  The target is a 64-bit platform: \<^verbatim>\<open>size_t\<close> is a 64-bit unsigned integer whose
  arithmetic wraps around, \<^verbatim>\<open>int\<close> is a 32-bit signed integer whose overflow is
  undefined behaviour.
\<close>

type_synonym size_t = "64 word"

subsection \<open>Dataset\<close>

text \<open>
  \<^verbatim>\<open>Dataset<SampleType>\<close> is an abstract class with two pure virtual members.
  An instance is the pair of its two methods; \<^verbatim>\<open>getItem\<close> may throw, so it
  returns either an exception of type \<open>'e\<close> or a sample.
\<close>

record ('e, 'a) Dataset =
  getItem :: "size_t \<Rightarrow> 'e + 'a"
  size_ds :: size_t

text \<open>
  \<^verbatim>\<open>IntDataset\<close> of the unit tests: \<^verbatim>\<open>getItem\<close> is \<^verbatim>\<open>data_.at(index)\<close>, which throws
  \<^verbatim>\<open>std::out_of_range\<close> for an index past the end.
\<close>

datatype std_exception = out_of_range

definition IntDataset :: "int list \<Rightarrow> (std_exception, int) Dataset" where
  "IntDataset data =
     \<lparr>getItem = (\<lambda>index. if unat index < length data then Inr (data ! unat index)
                          else Inl out_of_range),
      size_ds = of_nat (length data)\<rparr>"

subsection \<open>The library calls of the constructor\<close>

text \<open>
  The constructor calls \<^verbatim>\<open>std::vector::resize\<close>, \<^verbatim>\<open>std::iota\<close> and \<^verbatim>\<open>std::shuffle\<close>. They
  belong to the C++ standard library, not to the repository, and are written here as the
  library runs them.

  \<^verbatim>\<open>indices_.resize(n)\<close> throws \<^verbatim>\<open>std::length_error\<close> when \<open>n\<close> exceeds
  \<^verbatim>\<open>max_size()\<close>, which for a vector of 8-byte elements is \<^verbatim>\<open>PTRDIFF_MAX / 8\<close> in
  libstdc++. Running out of memory is not modelled.
\<close>

definition vector_max_size :: nat where
  "vector_max_size = (2 ^ 63 - 1) div 8"

datatype ctor_failure = length_error

text \<open>
  \<^verbatim>\<open>std::iota(first, last, 0)\<close>: for each element, \<^verbatim>\<open>*first = value; ++value;\<close>.
  The counter has the type of the literal \<^verbatim>\<open>0\<close>, that is \<^verbatim>\<open>int\<close>, and every assignment
  converts it to \<^verbatim>\<open>size_t\<close>, extending the sign. Incrementing the counter past
  \<^verbatim>\<open>INT_MAX\<close> is undefined in C++; the compiled loop neither throws nor stops, the
  counter wraps around to \<^verbatim>\<open>INT_MIN\<close>, and the model follows it: from position \<open>2^31\<close> on
  the values stored are \<open>2^64 - 2^31\<close>, \<open>2^64 - 2^31 + 1\<close>, and so on.
  The first argument is the number of elements left to fill.
\<close>

type_synonym c_int = "32 word"

fun iota :: "nat \<Rightarrow> c_int \<Rightarrow> size_t list" where
  "iota 0 v = []"
| "iota (Suc n) v = word_of_int (sint v) # iota n (v + 1)"

text \<open>
  \<^verbatim>\<open>std::shuffle(first, last, g)\<close> is the library's Fisher-Yates loop
  \<^verbatim>\<open>for (i = n - 1; i > 0; --i) swap(first[i], first[D(g, 0, i)]);\<close>.
  The engine is seeded from \<^verbatim>\<open>std::random_device\<close> at every call, so the draws are
  an input of the model: \<open>g i\<close> is the number drawn at position \<open>i\<close>, brought into
  \<open>0..i\<close>. Every permutation is the outcome of some draws (\<open>std_shuffle_reaches\<close> below),
  so nothing depends on the library's choice of algorithm.
\<close>

type_synonym rng = "nat \<Rightarrow> nat"

definition swap_at :: "nat \<Rightarrow> nat \<Rightarrow> 'a list \<Rightarrow> 'a list" where
  "swap_at i j xs = xs[i := xs ! j, j := xs ! i]"

fun shuffle_loop :: "rng \<Rightarrow> nat \<Rightarrow> 'a list \<Rightarrow> 'a list" where
  "shuffle_loop g 0 xs = xs"
| "shuffle_loop g (Suc i) xs = shuffle_loop g i (swap_at (Suc i) (g (Suc i) mod Suc (Suc i)) xs)"

definition std_shuffle :: "rng \<Rightarrow> 'a list \<Rightarrow> 'a list" where
  "std_shuffle g xs = shuffle_loop g (length xs - 1) xs"

subsection \<open>DataLoader\<close>

text \<open>
  The private members \<^verbatim>\<open>dataset_\<close>, \<^verbatim>\<open>batch_size_\<close>, \<^verbatim>\<open>shuffle_\<close>, \<^verbatim>\<open>indices_\<close> and
  \<^verbatim>\<open>current_index_\<close>, written without the trailing underscore.
\<close>

record ('e, 'a) DataLoader =
  dataset :: "('e, 'a) Dataset"
  batch_size :: size_t
  shuffle :: bool
  indices :: "size_t list"
  current_index :: size_t

text \<open>
  The constructor. It checks nothing about \<^verbatim>\<open>batch_size\<close>; the one exception that can
  leave it is the \<^verbatim>\<open>std::length_error\<close> of \<^verbatim>\<open>resize\<close>.
\<close>

definition DataLoader_ctor ::
  "('e, 'a) Dataset \<Rightarrow> size_t \<Rightarrow> bool \<Rightarrow> rng \<Rightarrow> ctor_failure + ('e, 'a) DataLoader" where
  "DataLoader_ctor ds bs sh g =
     (if vector_max_size < unat (size_ds ds) then Inl length_error
      else let idx = iota (unat (size_ds ds)) 0 in
           Inr \<lparr>dataset = ds, batch_size = bs, shuffle = sh,
                indices = (if sh then std_shuffle g idx else idx),
                current_index = 0\<rparr>)"

definition hasNext :: "('e, 'a) DataLoader \<Rightarrow> bool" where
  "hasNext s \<longleftrightarrow> current_index s < of_nat (length (indices s))"

text \<open>
  The loop of \<^verbatim>\<open>nextBatch\<close>:
  \<^verbatim>\<open>for (size_t i = current_index_; i < end_index; ++i) batch.push_back(dataset_.getItem(indices_[i]));\<close>
  An exception of \<^verbatim>\<open>getItem\<close> leaves the loop at once.
\<close>

function batch_loop ::
  "('e, 'a) Dataset \<Rightarrow> size_t list \<Rightarrow> size_t \<Rightarrow> size_t \<Rightarrow> 'a list \<Rightarrow> 'e + 'a list" where
  "batch_loop ds idx i end_index batch =
     (if i < end_index then
        (case getItem ds (idx ! unat i) of
           Inl e \<Rightarrow> Inl e
         | Inr x \<Rightarrow> batch_loop ds idx (i + 1) end_index (batch @ [x]))
      else Inr batch)"
  by pat_completeness auto
termination
proof (relation "measure (\<lambda>(ds, idx, i, end_index, batch). unat end_index - unat i)", goal_cases)
  case 1
  show ?case by simp
next
  case (2 ds idx i end_index batch x)
  from 2 have lt: "unat i < unat end_index"
    by (simp add: word_less_nat_alt)
  moreover have "unat end_index < 2 ^ 64"
    using unsigned_less [of end_index, where ?'a = nat] by simp
  ultimately have "unat (i + 1) = unat i + 1"
    by (simp add: unat_word_ariths)
  with lt show ?case by simp
qed

declare batch_loop.simps [simp del]

text \<open>
  \<^verbatim>\<open>nextBatch\<close> returns the batch, or the exception that left it, together with the
  loader afterwards. The cursor is assigned after the loop, so an exception leaves the
  loader as it was.
\<close>

definition end_index_of :: "('e, 'a) DataLoader \<Rightarrow> size_t" where
  "end_index_of s = min (current_index s + batch_size s) (of_nat (length (indices s)))"

definition nextBatch :: "('e, 'a) DataLoader \<Rightarrow> ('e + 'a list) \<times> ('e, 'a) DataLoader" where
  "nextBatch s =
     (let end_index = end_index_of s in
      case batch_loop (dataset s) (indices s) (current_index s) end_index [] of
        Inl e \<Rightarrow> (Inl e, s)
      | Inr batch \<Rightarrow> (Inr batch, s\<lparr>current_index := end_index\<rparr>))"

definition reset :: "('e, 'a) DataLoader \<Rightarrow> rng \<Rightarrow> ('e, 'a) DataLoader" where
  "reset s g =
     (let s1 = s\<lparr>current_index := 0\<rparr> in
      if shuffle s1 then s1\<lparr>indices := std_shuffle g (indices s1)\<rparr> else s1)"

subsection \<open>Driving a loader\<close>

text \<open>
  One epoch, as the tests run it:
  \<^verbatim>\<open>while (loader.hasNext()) { auto b = loader.nextBatch(); ... }\<close>,
  recording the batches in order. The loop need not end (a loader with batch size 0
  never advances), so not returning is the value \<open>None\<close>.
\<close>

partial_function (option) epoch ::
  "('e, 'a) DataLoader \<Rightarrow> 'a list list \<Rightarrow> (('e + 'a list list) \<times> ('e, 'a) DataLoader) option" where
  "epoch s batches =
     (if hasNext s then
        (case nextBatch s of
           (Inl e, s') \<Rightarrow> Some (Inl e, s')
         | (Inr batch, s') \<Rightarrow> epoch s' (batches @ [batch]))
      else Some (Inr batches, s))"

declare epoch.simps [code]

text \<open>Any sequence of calls on a loader; \<^verbatim>\<open>hasNext\<close> is a \<^verbatim>\<open>const\<close> query.\<close>

datatype call = HasNext | NextBatch | Reset rng

fun do_call :: "('e, 'a) DataLoader \<Rightarrow> call \<Rightarrow> ('e, 'a) DataLoader" where
  "do_call s HasNext = s"
| "do_call s NextBatch = snd (nextBatch s)"
| "do_call s (Reset g) = reset s g"

definition run :: "('e, 'a) DataLoader \<Rightarrow> call list \<Rightarrow> ('e, 'a) DataLoader" where
  "run s calls = foldl do_call s calls"

subsection \<open>Batching as a list operation\<close>

text \<open>
  Cutting a list into consecutive pieces of \<open>n\<close> elements, the last one shorter when
  \<open>n\<close> does not divide the length. The epoch of a loader is compared with it.
\<close>

fun chunks :: "nat \<Rightarrow> 'a list \<Rightarrow> 'a list list" where
  "chunks n xs = (if n = 0 \<or> xs = [] then [] else take n xs # chunks n (drop n xs))"

declare chunks.simps [simp del]

text \<open>The indices that one call of \<^verbatim>\<open>nextBatch\<close> passes to \<^verbatim>\<open>getItem\<close>, in order.\<close>

definition batch_indices :: "('e, 'a) DataLoader \<Rightarrow> size_t list" where
  "batch_indices s =
     map (\<lambda>k. indices s ! k) [unat (current_index s) ..< unat (end_index_of s)]"

text \<open>A dataset that answers every index below its size, with the sample \<open>f i\<close>.\<close>

definition serves :: "('e, 'a) Dataset \<Rightarrow> (size_t \<Rightarrow> 'a) \<Rightarrow> bool" where
  "serves ds f \<longleftrightarrow> (\<forall>i. i < size_ds ds \<longrightarrow> getItem ds i = Inr (f i))"

text \<open>Calling a function that may fail on each element of a list, in order, up to the first failure.\<close>

fun collect :: "('i \<Rightarrow> 'e + 'a) \<Rightarrow> 'i list \<Rightarrow> 'e + 'a list" where
  "collect f [] = Inr []"
| "collect f (i # is) =
     (case f i of
        Inl e \<Rightarrow> Inl e
      | Inr x \<Rightarrow> (case collect f is of Inl e \<Rightarrow> Inl e | Inr xs \<Rightarrow> Inr (x # xs)))"

text \<open>
  What holds of every loader built by the constructor on the dataset \<open>ds\<close> and driven
  by any calls afterwards.
\<close>

definition loader_inv :: "('e, 'a) Dataset \<Rightarrow> ('e, 'a) DataLoader \<Rightarrow> bool" where
  "loader_inv ds s \<longleftrightarrow>
     dataset s = ds \<and>
     unat (size_ds ds) \<le> vector_max_size \<and>
     mset (indices s) = mset (iota (unat (size_ds ds)) 0) \<and>
     (\<not> shuffle s \<longrightarrow> indices s = iota (unat (size_ds ds)) 0) \<and>
     current_index s \<le> size_ds ds"

subsection \<open>Fixtures of the unit tests\<close>

text \<open>The dataset of \<^verbatim>\<open>DataLoaderTest.BatchIterationNoShuffle\<close>.\<close>

definition ints5 :: "(std_exception, int) Dataset" where
  "ints5 = IntDataset [10, 11, 12, 13, 14]"

text \<open>The loader of that test, batch size 2 and no shuffle, with its cursor at \<open>c\<close>.\<close>

definition loader5 :: "size_t \<Rightarrow> (std_exception, int) DataLoader" where
  "loader5 c = \<lparr>dataset = ints5, batch_size = 2, shuffle = False,
                 indices = [0, 1, 2, 3, 4], current_index = c\<rparr>"

text \<open>A loader on the same dataset with any batch size, used with 0 and with \<^verbatim>\<open>SIZE_MAX\<close>.\<close>

definition loader5_bs :: "size_t \<Rightarrow> size_t \<Rightarrow> (std_exception, int) DataLoader" where
  "loader5_bs b c = \<lparr>dataset = ints5, batch_size = b, shuffle = False,
                      indices = [0, 1, 2, 3, 4], current_index = c\<rparr>"

text \<open>Some sequence of random draws.\<close>

definition draws :: rng where
  "draws i = i + 3"

text \<open>A dataset of three samples whose \<^verbatim>\<open>getItem\<close> throws at index 1, and a loader on it.\<close>

definition flaky :: "(std_exception, int) Dataset" where
  "flaky = \<lparr>getItem = (\<lambda>index. if index = 1 then Inl out_of_range else Inr (uint index)),
            size_ds = 3\<rparr>"

definition flaky_loader :: "size_t \<Rightarrow> (std_exception, int) DataLoader" where
  "flaky_loader c = \<lparr>dataset = flaky, batch_size = 2, shuffle = False,
                       indices = [0, 1, 2], current_index = c\<rparr>"

text \<open>
  A dataset of \<^verbatim>\<open>INT_MAX + 3\<close> samples, and the loader that the constructor returns on it
  with the batch size \<open>b\<close> and the shuffle flag \<open>sh\<close>.
\<close>

definition big_n :: nat where
  "big_n = 2147483650"

definition big :: "(std_exception, int) Dataset" where
  "big = IntDataset (replicate big_n 0)"

definition big_loader :: "size_t \<Rightarrow> bool \<Rightarrow> (std_exception, int) DataLoader" where
  "big_loader b sh = \<lparr>dataset = big, batch_size = b, shuffle = sh,
                       indices = (if sh then std_shuffle draws (iota big_n 0) else iota big_n 0),
                       current_index = 0\<rparr>"

section \<open>Properties\<close>

subsection \<open>The constructor and the shuffle\<close>

lemma length_iota [simp]: "length (iota n v) = n"
  by (induction n arbitrary: v) simp_all

lemma iota_nth: "k < n \<Longrightarrow> iota n v ! k = word_of_int (sint (v + of_nat k))"
proof (induction n arbitrary: v k)
  case 0
  then show ?case by simp
next
  case (Suc n)
  show ?case
  proof (cases k)
    case 0
    then show ?thesis by simp
  next
    case (Suc j)
    with Suc.prems have "j < n" by simp
    from Suc.IH [OF this, of "v + 1"] Suc show ?thesis
      by (simp add: add.assoc)
  qed
qed

text \<open>Up to \<^verbatim>\<open>INT_MAX + 1\<close> elements the counter does not wrap before its last use.\<close>

lemma sint_small: "k < 2147483648 \<Longrightarrow> sint (of_nat k :: c_int) = int k"
  by (simp add: signed_of_nat signed_take_bit_int_eq_self)

lemma iota_small: "n \<le> 2147483648 \<Longrightarrow> iota n 0 = map of_nat [0..<n]"
  by (rule nth_equalityI) (simp_all add: iota_nth sint_small)

text \<open>Beyond, position \<open>2^31\<close> holds \<open>2^64 - 2^31\<close>, and no position holds \<open>2^31\<close>.\<close>

lemma iota_wrapped: "2147483648 < n \<Longrightarrow> iota n 0 ! 2147483648 = 18446744071562067968"
  using iota_nth [of 2147483648 n 0] by simp

lemma wrapped_not_index: "(word_of_int (sint (v :: c_int)) :: size_t) \<noteq> 2147483648"
proof
  assume a: "(word_of_int (sint v) :: size_t) = 2147483648"
  have r: "- 2147483648 \<le> sint v" "sint v < 2147483648"
    using sint_ge [of v] sint_lt [of v] by simp_all
  have "uint (scast v :: size_t) = sint v mod 2 ^ LENGTH(64)"
    unfolding scast_eq by (rule uint_word_of_int)
  with a have m: "sint v mod 18446744073709551616 = 2147483648"
    by simp
  show False
  proof (cases "0 \<le> sint v")
    case True
    with r m show False by simp
  next
    case False
    have "sint v mod 18446744073709551616 = (sint v + 18446744073709551616) mod 18446744073709551616"
      by simp
    also have "\<dots> = sint v + 18446744073709551616"
      using r False by (intro mod_pos_pos_trivial) simp_all
    finally show False
      using m r by simp
  qed
qed

lemma iota_misses: "2147483648 \<notin> set (iota n v)"
proof
  assume "2147483648 \<in> set (iota n v)"
  then obtain k where "k < n" "iota n v ! k = 2147483648"
    by (auto simp: in_set_conv_nth)
  then show False
    using wrapped_not_index [of "v + of_nat k"] by (simp only: iota_nth)
qed

lemma iota_has_wrapped: "2147483648 < n \<Longrightarrow> 18446744071562067968 \<in> set (iota n 0)"
  using nth_mem [of 2147483648 "iota n 0"] by (simp add: iota_wrapped)

lemma iota_not_identity:
  assumes "2147483648 < n"
  shows "iota n 0 \<noteq> map of_nat [0..<n]"
proof
  assume "iota n 0 = map of_nat [0..<n]"
  then have "iota n 0 ! 2147483648 = (map of_nat [0..<n] :: size_t list) ! 2147483648"
    by simp
  with assms show False
    by (simp add: iota_wrapped)
qed

lemma ctor_eq:
  "DataLoader_ctor ds bs sh g =
     (if vector_max_size < unat (size_ds ds) then Inl length_error
      else Inr \<lparr>dataset = ds, batch_size = bs, shuffle = sh,
                indices = (if sh then std_shuffle g (iota (unat (size_ds ds)) 0)
                           else iota (unat (size_ds ds)) 0),
                current_index = 0\<rparr>)"
  by (simp add: DataLoader_ctor_def Let_def)

lemma mset_swap_at:
  "i < length xs \<Longrightarrow> j < length xs \<Longrightarrow> mset (swap_at i j xs) = mset xs"
  unfolding swap_at_def by (simp add: mset_swap)

lemma length_swap_at [simp]: "length (swap_at i j xs) = length xs"
  by (simp add: swap_at_def)

lemma shuffle_loop_mset:
  "i < length xs \<Longrightarrow> mset (shuffle_loop g i xs) = mset xs"
proof (induction i arbitrary: xs)
  case 0
  show ?case by simp
next
  case (Suc i)
  have "g (Suc i) mod Suc (Suc i) < length xs"
    using Suc.prems by (meson Suc_leI le_trans mod_less_divisor not_le zero_less_Suc)
  then show ?case using Suc by (simp add: mset_swap_at)
qed

lemma mset_std_shuffle [simp]: "mset (std_shuffle g xs) = mset xs"
  by (cases "xs = []") (simp_all add: std_shuffle_def shuffle_loop_mset)

lemma length_std_shuffle [simp]: "length (std_shuffle g xs) = length xs"
  using mset_std_shuffle [of g xs] by (metis size_mset)

lemma set_std_shuffle [simp]: "set (std_shuffle g xs) = set xs"
  using mset_std_shuffle [of g xs] by (metis set_mset_mset)

text \<open>
  The draws can produce every permutation, so a statement about all draws is a statement
  about every outcome of the shuffle.
\<close>

lemma shuffle_loop_cong:
  "(\<And>k. k \<le> i \<Longrightarrow> g k = g' k) \<Longrightarrow> shuffle_loop g i xs = shuffle_loop g' i xs"
  by (induction i arbitrary: xs) simp_all

lemma take_Suc_swap_at:
  assumes "j \<le> i" and "i < length xs"
  shows "mset (take i (swap_at i j xs)) + {#xs ! j#} = mset (take (Suc i) xs)"
proof -
  have "mset (take (Suc i) (swap_at i j xs)) = mset (swap_at i j (take (Suc i) xs))"
    using assms by (simp add: swap_at_def take_update_swap)
  also have "\<dots> = mset (take (Suc i) xs)"
    using assms by (simp add: mset_swap_at)
  finally have "mset (take (Suc i) (swap_at i j xs)) = mset (take (Suc i) xs)" .
  moreover have "swap_at i j xs ! i = xs ! j"
    using assms by (cases "i = j") (simp_all add: swap_at_def)
  ultimately show ?thesis
    using assms by (simp add: take_Suc_conv_app_nth)
qed

lemma shuffle_loop_reaches:
  assumes "length xs = length ys" and "i < length xs"
    and "mset (take (Suc i) xs) = mset (take (Suc i) ys)"
    and "drop (Suc i) xs = drop (Suc i) ys"
  shows "\<exists>g. shuffle_loop g i xs = ys"
  using assms
proof (induction i arbitrary: xs)
  case (0 xs)
  then have "xs ! 0 = ys ! 0"
    by (cases xs; cases ys) simp_all
  with 0 have "xs = ys"
    by (cases xs; cases ys) simp_all
  then show ?case by simp
next
  case (Suc i xs)
  let ?n = "Suc i"
  have "ys ! ?n \<in># mset (take (Suc ?n) ys)"
    using Suc.prems(1,2) by (simp add: take_Suc_conv_app_nth)
  then have "ys ! ?n \<in> set (take (Suc ?n) xs)"
    using Suc.prems(3) by (metis set_mset_mset)
  then obtain j where j: "j < Suc ?n" "j < length xs" "xs ! j = ys ! ?n"
    by (auto simp: in_set_conv_nth)
  let ?xs' = "swap_at ?n j xs"
  have at: "?xs' ! ?n = ys ! ?n"
    using j Suc.prems(2) by (cases "j = ?n") (simp_all add: swap_at_def)
  have dr: "drop (Suc ?n) ?xs' = drop (Suc ?n) ys"
    using j Suc.prems(4) by (simp add: swap_at_def)
  have "drop ?n ?xs' = ?xs' ! ?n # drop (Suc ?n) ?xs'"
    using Suc.prems(2) by (simp add: Cons_nth_drop_Suc)
  moreover have "drop ?n ys = ys ! ?n # drop (Suc ?n) ys"
    using Suc.prems(1,2) by (simp add: Cons_nth_drop_Suc)
  ultimately have dr': "drop ?n ?xs' = drop ?n ys"
    using at dr by simp
  have "mset (take ?n ?xs') + {#ys ! ?n#} = mset (take (Suc ?n) xs)"
    using take_Suc_swap_at [of j ?n xs] j Suc.prems(2) by simp
  also have "\<dots> = mset (take ?n ys) + {#ys ! ?n#}"
    using Suc.prems(1,2,3) by (simp add: take_Suc_conv_app_nth)
  finally have ms: "mset (take ?n ?xs') = mset (take ?n ys)"
    by simp
  from Suc.IH [of ?xs'] Suc.prems(1,2) ms dr'
  obtain g' where g': "shuffle_loop g' i ?xs' = ys"
    by auto
  let ?g = "g'(?n := j)"
  have "shuffle_loop ?g i ?xs' = shuffle_loop g' i ?xs'"
    by (rule shuffle_loop_cong) simp
  with g' j(1) have h: "shuffle_loop ?g ?n xs = ys"
    by simp
  show ?case
    by (rule exI [of _ ?g]) (rule h)
qed

lemma std_shuffle_reaches:
  assumes "mset ys = mset xs"
  shows "\<exists>g. std_shuffle g xs = ys"
proof (cases "xs = []")
  case True
  with assms show ?thesis by (simp add: std_shuffle_def)
next
  case False
  from assms have len: "length xs = length ys"
    by (metis size_mset)
  from False have "0 < length xs"
    by simp
  then have "length xs - 1 < length xs" "Suc (length xs - 1) = length xs"
    by arith+
  with shuffle_loop_reaches [of xs ys "length xs - 1"] len assms show ?thesis
    by (simp add: std_shuffle_def)
qed

subsection \<open>One call of nextBatch\<close>

lemma unat_succ:
  fixes i e :: "'a::len word"
  assumes "i < e"
  shows "unat (i + 1) = Suc (unat i)"
proof -
  from assms have "unat i < unat e"
    by (simp add: word_less_nat_alt)
  moreover have "unat e < 2 ^ LENGTH('a)"
    by (rule unsigned_less)
  ultimately have "Suc (unat i) < 2 ^ LENGTH('a)"
    by arith
  then show ?thesis
    by (simp add: unat_word_ariths)
qed

lemma batch_loop_collect:
  "batch_loop ds idx i e acc =
     (case collect (getItem ds) (map (\<lambda>k. idx ! k) [unat i ..< unat e]) of
        Inl x \<Rightarrow> Inl x
      | Inr b \<Rightarrow> Inr (acc @ b))"
proof (induction ds idx i e acc rule: batch_loop.induct)
  case (1 ds idx i e acc)
  show ?case
  proof (cases "i < e")
    case False
    then have "unat e \<le> unat i"
      by (simp add: word_less_nat_alt)
    with False show ?thesis
      by (subst batch_loop.simps) simp
  next
    case True
    then have lt: "unat i < unat e"
      by (simp add: word_less_nat_alt)
    have upt: "[unat i ..< unat e] = unat i # [unat (i + 1) ..< unat e]"
      using lt by (simp add: unat_succ [OF True] upt_conv_Cons)
    show ?thesis
    proof (cases "getItem ds (idx ! unat i)")
      case (Inl x)
      with True show ?thesis
        by (subst batch_loop.simps) (simp add: upt)
    next
      case (Inr x)
      with True "1.IH" [OF True Inr] show ?thesis
        by (subst batch_loop.simps) (simp add: upt split: sum.splits)
    qed
  qed
qed

lemma collect_ok:
  "\<forall>i \<in> set is. f i = Inr (h i) \<Longrightarrow> collect f is = Inr (map h is)"
  by (induction "is") simp_all

lemma collect_Inr_D:
  "collect f is = Inr xs \<Longrightarrow> i \<in> set is \<Longrightarrow> \<exists>x. f i = Inr x"
  by (induction "is" arbitrary: xs) (auto split: sum.splits)

lemma nextBatch_collect:
  "nextBatch s =
     (case collect (getItem (dataset s)) (batch_indices s) of
        Inl e \<Rightarrow> (Inl e, s)
      | Inr b \<Rightarrow> (Inr b, s\<lparr>current_index := end_index_of s\<rparr>))"
  by (simp add: nextBatch_def batch_loop_collect batch_indices_def Let_def split: sum.splits)

lemma unat_of_nat_len:
  "n < 2 ^ 64 \<Longrightarrow> unat (of_nat n :: size_t) = n"
  by (simp add: unat_of_nat)

lemma hasNext_iff:
  "length (indices s) < 2 ^ 64 \<Longrightarrow> hasNext s \<longleftrightarrow> unat (current_index s) < length (indices s)"
  by (simp add: hasNext_def word_less_nat_alt unat_of_nat_len)

lemma unat_min: "unat (min a b) = min (unat a) (unat b)"
  by (simp add: min_def word_le_nat_alt)

lemma unat_end_index:
  assumes "length (indices s) < 2 ^ 64"
    and "unat (current_index s) + unat (batch_size s) < 2 ^ 64"
  shows "unat (end_index_of s) =
           min (unat (current_index s) + unat (batch_size s)) (length (indices s))"
proof -
  have "unat (current_index s + batch_size s) = unat (current_index s) + unat (batch_size s)"
    using assms(2) by (simp add: unat_add_lem [THEN iffD1])
  then show ?thesis
    using assms(1) by (simp add: end_index_of_def unat_min unat_of_nat_len)
qed

lemma unat_end_index_le: "unat (end_index_of s) \<le> length (indices s)"
proof -
  have "unat (end_index_of s) \<le> unat (of_nat (length (indices s)) :: size_t)"
    by (simp add: end_index_of_def unat_min)
  also have "\<dots> \<le> length (indices s)"
    by (simp add: unat_of_nat)
  finally show ?thesis .
qed

lemma map_nth_slice:
  "b \<le> length xs \<Longrightarrow> map (\<lambda>k. xs ! k) [a..<b] = take (b - a) (drop a xs)"
  by (rule nth_equalityI) auto

lemma batch_indices_slice:
  "batch_indices s =
     take (unat (end_index_of s) - unat (current_index s)) (drop (unat (current_index s)) (indices s))"
  using unat_end_index_le [of s]
  by (simp add: batch_indices_def map_nth_slice)

subsection \<open>Batching a list\<close>

lemma chunks_Nil_iff: "chunks n xs = [] \<longleftrightarrow> n = 0 \<or> xs = []"
  by (subst chunks.simps) simp

lemma concat_chunks: "0 < n \<Longrightarrow> concat (chunks n xs) = xs"
proof (induction n xs rule: chunks.induct)
  case (1 n xs)
  then show ?case
    by (subst chunks.simps) auto
qed

lemma chunks_short: "0 < n \<Longrightarrow> xs \<noteq> [] \<Longrightarrow> length xs \<le> n \<Longrightarrow> chunks n xs = [xs]"
  by (subst chunks.simps) (simp add: chunks_Nil_iff)

lemma chunks_long:
  "0 < n \<Longrightarrow> n < length xs \<Longrightarrow> chunks n xs = take n xs # chunks n (drop n xs)"
  by (subst chunks.simps) auto

lemma length_chunks:
  "0 < n \<Longrightarrow> length (chunks n xs) = length xs div n + (if length xs mod n = 0 then 0 else 1)"
proof (induction n xs rule: chunks.induct)
  case (1 n xs)
  show ?case
  proof (cases "xs = []")
    case True
    then show ?thesis by (simp add: chunks_Nil_iff)
  next
    case False
    show ?thesis
    proof (cases "length xs \<le> n")
      case True
      with False "1.prems" show ?thesis
        by (cases "length xs = n") (simp_all add: chunks_short)
    next
      case False
      then have lt: "n < length xs" by simp
      have IH: "length (chunks n (drop n xs)) =
          (length xs - n) div n + (if (length xs - n) mod n = 0 then 0 else 1)"
        using "1.IH" \<open>xs \<noteq> []\<close> "1.prems" by simp
      have "(length xs - n) div n = length xs div n - 1"
        using lt "1.prems" by (simp add: le_div_geq)
      moreover have "(length xs - n) mod n = length xs mod n"
        using lt by (simp add: le_mod_geq)
      moreover have "0 < length xs div n"
        using lt "1.prems" by (simp add: div_greater_zero_iff)
      ultimately show ?thesis
        using lt "1.prems" by (simp add: chunks_long IH)
    qed
  qed
qed

lemma length_chunks_nth:
  "Suc k < length (chunks n xs) \<Longrightarrow> length (chunks n xs ! k) = n"
proof (induction n xs arbitrary: k rule: chunks.induct)
  case (1 n xs)
  from "1.prems" have ne: "n \<noteq> 0" "xs \<noteq> []"
    using chunks_Nil_iff [of n xs] by auto
  have long: "n < length xs"
  proof (rule ccontr)
    assume "\<not> n < length xs"
    with ne have "chunks n xs = [xs]" by (simp add: chunks_short)
    with "1.prems" show False by simp
  qed
  then have unf: "chunks n xs = take n xs # chunks n (drop n xs)"
    using ne by (simp add: chunks_long)
  show ?case
  proof (cases k)
    case 0
    with long show ?thesis by (simp add: unf)
  next
    case (Suc j)
    with "1.prems" have "Suc j < length (chunks n (drop n xs))"
      by (simp add: unf)
    with "1.IH" ne have "length (chunks n (drop n xs) ! j) = n"
      by simp
    with Suc show ?thesis by (simp add: unf)
  qed
qed

lemma length_last_chunks:
  "chunks n xs \<noteq> [] \<Longrightarrow>
     length (last (chunks n xs)) = (if length xs mod n = 0 then n else length xs mod n)"
proof (induction n xs rule: chunks.induct)
  case (1 n xs)
  from "1.prems" have ne: "n \<noteq> 0" "xs \<noteq> []"
    using chunks_Nil_iff [of n xs] by auto
  show ?case
  proof (cases "length xs \<le> n")
    case True
    with ne show ?thesis
      by (cases "length xs = n") (simp_all add: chunks_short)
  next
    case False
    then have long: "n < length xs" by simp
    then have unf: "chunks n xs = take n xs # chunks n (drop n xs)"
      using ne by (simp add: chunks_long)
    have rest: "chunks n (drop n xs) \<noteq> []"
      using long ne by (simp add: chunks_Nil_iff)
    have "(length xs - n) mod n = length xs mod n"
      using long by (simp add: le_mod_geq)
    with "1.IH" [OF _ rest] ne rest show ?thesis
      by (simp add: unf)
  qed
qed

lemma chunks_nonempty: "b \<in> set (chunks n xs) \<Longrightarrow> b \<noteq> []"
proof (induction n xs rule: chunks.induct)
  case (1 n xs)
  from "1.prems" have ne: "n \<noteq> 0" "xs \<noteq> []"
    using chunks_Nil_iff [of n xs] by auto
  from "1.prems" have "b \<in> set (take n xs # chunks n (drop n xs))"
    using ne by (subst (asm) chunks.simps) simp
  with "1.IH" ne show ?case by auto
qed

subsection \<open>One epoch\<close>

lemma epoch_full:
  fixes s :: "('e, 'a) DataLoader"
  assumes "length (indices s) < 2 ^ 63"
    and "unat (current_index s) \<le> length (indices s)"
    and "batch_size s \<noteq> 0"
    and "unat (current_index s) < length (indices s) \<Longrightarrow>
           unat (current_index s) + unat (batch_size s) < 2 ^ 64"
    and "\<forall>i \<in> set (indices s). getItem (dataset s) i = Inr (f i)"
  shows "epoch s acc =
           Some (Inr (acc @ chunks (unat (batch_size s))
                              (map f (drop (unat (current_index s)) (indices s)))),
                 s\<lparr>current_index := of_nat (length (indices s))\<rparr>)"
  using assms
proof (induction "length (indices s) - unat (current_index s)" arbitrary: s acc rule: less_induct)
  case less
  let ?L = "length (indices s)"
  let ?c = "unat (current_index s)"
  let ?B = "unat (batch_size s)"
  have L64: "?L < 2 ^ 64"
    using less.prems(1) by simp
  show ?case
  proof (cases "hasNext s")
    case False
    with less.prems(2) have "?c = ?L"
      by (simp add: hasNext_iff [OF L64])
    then have "current_index s = of_nat ?L"
      by (metis of_nat_unat ucast_id)
    then have "s\<lparr>current_index := of_nat ?L\<rparr> = s"
      by simp
    with False \<open>?c = ?L\<close> show ?thesis
      by (subst epoch.simps) (simp add: chunks.simps)
  next
    case True
    then have cL: "?c < ?L"
      by (simp add: hasNext_iff [OF L64])
    then have nov: "?c + ?B < 2 ^ 64"
      by (rule less.prems(4))
    have Bpos: "0 < ?B"
      using less.prems(3) by (simp add: unat_gt_0)
    let ?e = "unat (end_index_of s)"
    have e: "?e = min (?c + ?B) ?L"
      by (rule unat_end_index [OF L64 nov])
    have slice: "batch_indices s = take ?B (drop ?c (indices s))"
      unfolding batch_indices_slice e by (cases "?c + ?B \<le> ?L") simp_all
    have "\<forall>i \<in> set (batch_indices s). getItem (dataset s) i = Inr (f i)"
      using less.prems(5) unfolding slice
      by (meson in_set_dropD in_set_takeD)
    then have coll: "collect (getItem (dataset s)) (batch_indices s) = Inr (map f (batch_indices s))"
      by (rule collect_ok)
    let ?s' = "s\<lparr>current_index := end_index_of s\<rparr>"
    let ?b = "map f (take ?B (drop ?c (indices s)))"
    have nb: "nextBatch s = (Inr ?b, ?s')"
      by (simp add: nextBatch_collect coll [unfolded slice] slice)
    have dec: "length (indices ?s') - unat (current_index ?s') < ?L - ?c"
      using cL Bpos by (simp add: e)
    have nov': "unat (current_index ?s') < length (indices ?s') \<Longrightarrow>
           unat (current_index ?s') + unat (batch_size ?s') < 2 ^ 64"
      using less.prems(1) by (simp add: e)
    have IH: "epoch ?s' (acc @ [?b]) =
           Some (Inr ((acc @ [?b]) @ chunks ?B (map f (drop ?e (indices s)))),
                 ?s'\<lparr>current_index := of_nat ?L\<rparr>)"
      using less.hyps [OF dec _ _ _ nov', of "acc @ [?b]"] less.prems(1,3,5)
      by (simp add: e)
    have dr: "drop ?e (indices s) = drop (?B + ?c) (indices s)"
      by (cases "?c + ?B \<le> ?L") (simp_all add: e add.commute)
    have ch: "chunks ?B (map f (drop ?c (indices s))) =
            ?b # chunks ?B (map f (drop ?e (indices s)))"
      using Bpos cL
      by (subst chunks.simps) (simp add: dr take_map drop_map)
    show ?thesis
      using True by (subst epoch.simps) (simp add: nb IH ch)
  qed
qed

subsection \<open>Invariants of a loader\<close>

lemma loader_inv_length:
  "loader_inv ds s \<Longrightarrow> length (indices s) = unat (size_ds ds)"
  unfolding loader_inv_def by (metis length_iota size_mset)

lemma loader_inv_size:
  assumes "loader_inv ds s"
  shows "of_nat (length (indices s)) = size_ds ds"
  by (simp add: loader_inv_length [OF assms])

lemma map_unat_of_nat:
  "n \<le> 2147483648 \<Longrightarrow> map unat (map of_nat [0..<n] :: size_t list) = [0..<n]"
  by (rule nth_equalityI) (simp_all add: unat_of_nat_len)

lemma loader_inv_perm:
  assumes "loader_inv ds s" and le: "unat (size_ds ds) \<le> 2147483648"
  shows "mset (map unat (indices s)) = mset [0..<unat (size_ds ds)]"
proof -
  from assms have "mset (indices s) = mset (map of_nat [0..<unat (size_ds ds)])"
    by (simp add: loader_inv_def iota_small)
  then have "mset (map unat (indices s)) =
      mset (map unat (map of_nat [0..<unat (size_ds ds)] :: size_t list))"
    by (metis mset_map)
  then show ?thesis
    by (simp only: map_unat_of_nat [OF le])
qed

lemma loader_inv_hasNext:
  assumes "loader_inv ds s"
  shows "hasNext s \<longleftrightarrow> current_index s < size_ds ds"
  by (simp add: hasNext_def loader_inv_size [OF assms])

lemma ctor_inv:
  assumes "DataLoader_ctor ds bs sh g = Inr s"
  shows "loader_inv ds s"
  using assms by (auto simp: ctor_eq loader_inv_def split: if_splits)

lemma ctor_fields:
  assumes "DataLoader_ctor ds bs sh g = Inr s"
  shows "dataset s = ds \<and> batch_size s = bs \<and> shuffle s = sh \<and> current_index s = 0"
  using assms by (auto simp: ctor_eq split: if_splits)

lemma nextBatch_state:
  "snd (nextBatch s) = s \<or> snd (nextBatch s) = s\<lparr>current_index := end_index_of s\<rparr>"
  by (simp add: nextBatch_collect split: sum.splits)

lemma nextBatch_inv:
  assumes "loader_inv ds s"
  shows "loader_inv ds (snd (nextBatch s))"
proof -
  have "end_index_of s \<le> size_ds ds"
    by (simp add: end_index_of_def loader_inv_size [OF assms])
  then have "loader_inv ds (s\<lparr>current_index := end_index_of s\<rparr>)"
    using assms by (simp add: loader_inv_def)
  with assms nextBatch_state [of s] show ?thesis
    by auto
qed

lemma reset_inv:
  assumes "loader_inv ds s"
  shows "loader_inv ds (reset s g)"
  using assms by (simp add: loader_inv_def reset_def Let_def)

lemma do_call_inv: "loader_inv ds s \<Longrightarrow> loader_inv ds (do_call s c)"
  by (cases c) (simp_all add: nextBatch_inv reset_inv)

lemma run_inv: "loader_inv ds s \<Longrightarrow> loader_inv ds (run s calls)"
  unfolding run_def by (induction calls arbitrary: s) (simp_all add: do_call_inv)

lemma serves_indices:
  assumes "loader_inv ds s" and "serves ds f" and le: "unat (size_ds ds) \<le> 2147483648"
  shows "\<forall>i \<in> set (indices s). getItem (dataset s) i = Inr (f i)"
proof
  fix i assume "i \<in> set (indices s)"
  moreover from assms(1) le have "mset (indices s) = mset (map of_nat [0..<unat (size_ds ds)])"
    by (simp add: loader_inv_def iota_small)
  then have "set (indices s) = set (map of_nat [0..<unat (size_ds ds)])"
    by (metis set_mset_mset)
  ultimately obtain k where k: "k < unat (size_ds ds)" "i = of_nat k"
    by auto
  with le have "unat i = k"
    by (simp add: unat_of_nat_len)
  with k have "i < size_ds ds"
    by (simp add: word_less_nat_alt)
  with assms show "getItem (dataset s) i = Inr (f i)"
    by (simp add: serves_def loader_inv_def)
qed

lemma epoch_from_start:
  assumes inv: "loader_inv ds s" and cur: "current_index s = 0"
    and bs: "batch_size s \<noteq> 0" and srv: "serves ds f"
    and le: "unat (size_ds ds) \<le> 2147483648"
  shows "epoch s [] =
           Some (Inr (chunks (unat (batch_size s)) (map f (indices s))),
                 s\<lparr>current_index := size_ds ds\<rparr>)"
proof -
  have len: "length (indices s) = unat (size_ds ds)"
    by (rule loader_inv_length [OF inv])
  from len le have L: "length (indices s) < 2 ^ 63"
    by simp
  have B: "unat (batch_size s) < 2 ^ 64"
    using unsigned_less [of "batch_size s", where ?'a = nat] by simp
  show ?thesis
    using epoch_full [OF L _ bs _ serves_indices [OF inv srv le], of "[]"] B
    by (simp add: cur loader_inv_size [OF inv])
qed

subsection \<open>The epoch of a constructed loader\<close>

lemma ctor_epoch:
  assumes ctor: "DataLoader_ctor ds bs sh g = Inr s0" and bs: "bs \<noteq> 0" and srv: "serves ds f"
    and le: "unat (size_ds ds) \<le> 2147483648"
  shows "epoch s0 [] =
           Some (Inr (chunks (unat bs) (map f (indices s0))), s0\<lparr>current_index := size_ds ds\<rparr>)"
  using epoch_from_start [OF ctor_inv [OF ctor] _ _ srv le] ctor_fields [OF ctor] bs
  by simp

lemma exhausted_after:
  assumes "loader_inv ds s"
  shows "\<not> hasNext (s\<lparr>current_index := size_ds ds\<rparr>)"
  by (simp add: hasNext_def loader_inv_size [OF assms])

lemma epoch_cursor_only:
  "epoch s batches = Some y \<Longrightarrow> \<exists>c. snd y = s\<lparr>current_index := c\<rparr>"
proof (induction rule: epoch.raw_induct [rotated 1, consumes 1])
  case (1 epoch' s batches y)
  show ?case
  proof (cases "hasNext s")
    case False
    with 1(2) have "snd y = s" by auto
    then have "snd y = s\<lparr>current_index := current_index s\<rparr>" by simp
    then show ?thesis ..
  next
    case True
    show ?thesis
    proof (cases "fst (nextBatch s)")
      case (Inl e)
      with True 1(2) have "snd y = snd (nextBatch s)"
        by (cases "nextBatch s") auto
      moreover have "snd (nextBatch s) = s"
        using Inl by (simp add: nextBatch_collect split: sum.splits)
      ultimately have "snd y = s\<lparr>current_index := current_index s\<rparr>" by simp
      then show ?thesis ..
    next
      case (Inr b)
      with True 1(2) have "epoch' (snd (nextBatch s)) (batches @ [b]) = Some y"
        by (cases "nextBatch s") auto
      from 1(1) [OF this] obtain c where "snd y = (snd (nextBatch s))\<lparr>current_index := c\<rparr>" ..
      moreover from nextBatch_state [of s]
      have "(snd (nextBatch s))\<lparr>current_index := c\<rparr> = s\<lparr>current_index := c\<rparr>"
        by auto
      ultimately show ?thesis by auto
    qed
  qed
qed

lemma ctor_unshuffled_rng:
  assumes "DataLoader_ctor ds bs False g1 = Inr s1" and "DataLoader_ctor ds bs False g2 = Inr s2"
  shows "s1 = s2"
  using assms by (auto simp: ctor_eq split: if_splits)

subsection \<open>What the calls leave unchanged\<close>

lemma reset_fields:
  "dataset (reset s g) = dataset s \<and> batch_size (reset s g) = batch_size s \<and>
   shuffle (reset s g) = shuffle s \<and> current_index (reset s g) = 0 \<and>
   (\<not> shuffle s \<longrightarrow> indices (reset s g) = indices s)"
  by (simp add: reset_def Let_def)

lemma nextBatch_fields:
  "dataset (snd (nextBatch s)) = dataset s \<and> batch_size (snd (nextBatch s)) = batch_size s \<and>
   shuffle (snd (nextBatch s)) = shuffle s \<and> indices (snd (nextBatch s)) = indices s"
  using nextBatch_state [of s] by auto

lemma do_call_fields:
  "batch_size (do_call s c) = batch_size s \<and> shuffle (do_call s c) = shuffle s"
  by (cases c) (simp_all add: nextBatch_fields reset_fields)

subsection \<open>Calls that return an empty batch, and the indices of a batch\<close>

lemma exhausted_no_indices:
  assumes "\<not> hasNext s"
  shows "batch_indices s = []"
proof -
  from assms have "of_nat (length (indices s)) \<le> current_index s"
    by (simp add: hasNext_def)
  then have "end_index_of s \<le> current_index s"
    by (simp add: end_index_of_def min.coboundedI2)
  then show ?thesis
    by (simp add: batch_indices_def word_le_nat_alt)
qed

lemma no_indices_nextBatch:
  "batch_indices s = [] \<Longrightarrow> nextBatch s = (Inr [], s\<lparr>current_index := end_index_of s\<rparr>)"
  by (simp add: nextBatch_collect)



lemma end_eq_cursor_no_indices:
  "end_index_of s = current_index s \<Longrightarrow> batch_indices s = []"
  by (simp add: batch_indices_def)

lemma length_batch_indices:
  "length (batch_indices s) = unat (end_index_of s) - unat (current_index s)"
  by (simp add: batch_indices_def)

lemma collect_Inl:
  "i \<in> set is \<Longrightarrow> f i = Inl e \<Longrightarrow> \<exists>e'. collect f is = Inl e'"
  using collect_Inr_D [of f "is" _ i] by (cases "collect f is") auto

subsection \<open>A batch that takes in the whole dataset\<close>

lemma whole_batch_fails:
  assumes cur: "current_index s = 0" and L: "length (indices s) < 2 ^ 64"
    and B: "length (indices s) \<le> unat (batch_size s)"
    and i: "i \<in> set (indices s)" and e: "getItem (dataset s) i = Inl e"
  shows "\<exists>e'. nextBatch s = (Inl e', s) \<and> epoch s [] = Some (Inl e', s)"
proof -
  have "unat (batch_size s) < 2 ^ 64"
    using unsigned_less [of "batch_size s", where ?'a = nat] by simp
  then have nov: "unat (current_index s) + unat (batch_size s) < 2 ^ 64"
    by (simp add: cur)
  have "unat (end_index_of s) = length (indices s)"
    using unat_end_index [OF L nov] B by (simp add: cur)
  then have "batch_indices s = indices s"
    by (simp add: batch_indices_slice cur)
  with collect_Inl [of i "batch_indices s" "getItem (dataset s)" e] i e
  obtain e' where "collect (getItem (dataset s)) (batch_indices s) = Inl e'"
    by auto
  then have nb: "nextBatch s = (Inl e', s)"
    by (simp add: nextBatch_collect)
  from i have "0 < length (indices s)"
    by (cases "indices s") simp_all
  then have hn: "hasNext s"
    by (simp add: hasNext_iff [OF L] cur)
  have "epoch s [] = Some (Inl e', s)"
    using hn by (subst epoch.simps) (simp add: nb)
  with nb show ?thesis
    by blast
qed

subsection \<open>The fixtures, evaluated\<close>

lemma IntDataset_serves:
  "length v < 2 ^ 64 \<Longrightarrow> serves (IntDataset v) (\<lambda>i. v ! unat i)"
  by (simp add: serves_def IntDataset_def word_less_nat_alt unat_of_nat_len)

lemma ints5_serves: "serves ints5 (\<lambda>i. [10, 11, 12, 13, 14] ! unat i)"
  unfolding ints5_def by (rule IntDataset_serves) simp

lemma size_ints5: "size_ds ints5 = 5"
  by (simp add: ints5_def IntDataset_def)

lemma idx5: "map of_nat [0..<5] = [0, 1, 2, 3, 4 :: size_t]"
  by (simp add: eval_nat_numeral)

lemma iota5: "iota 5 0 = [0, 1, 2, 3, 4]"
  by (simp add: iota_small idx5)

lemma ints5_small: "unat (size_ds ints5) \<le> 2147483648"
  by (simp add: ints5_def IntDataset_def)

lemma shuffle5: "std_shuffle draws [0, 1, 2, 3, 4 :: size_t] = [1, 0, 3, 4, 2]"
  by code_simp

lemma ctor_loader5: "DataLoader_ctor ints5 2 False g = Inr (loader5 0)"
  by (simp add: ctor_eq size_ints5 loader5_def iota5 vector_max_size_def)

lemma ctor_loader5_bs: "DataLoader_ctor ints5 b False g = Inr (loader5_bs b 0)"
  by (simp add: ctor_eq size_ints5 loader5_bs_def iota5 vector_max_size_def)

lemma ctor_shuffled:
  "DataLoader_ctor ints5 2 True draws =
     Inr \<lparr>dataset = ints5, batch_size = 2, shuffle = True,
          indices = [1, 0, 3, 4, 2], current_index = 0\<rparr>"
  by (simp add: ctor_eq size_ints5 iota5 shuffle5 vector_max_size_def)

lemma getItem_ints5:
  "getItem ints5 0 = Inr 10" "getItem ints5 1 = Inr 11" "getItem ints5 2 = Inr 12"
  "getItem ints5 3 = Inr 13" "getItem ints5 4 = Inr 14"
  by (simp_all add: ints5_def IntDataset_def)

lemma nb0: "nextBatch (loader5 0) = (Inr [10, 11], loader5 2)"
  by (simp add: nextBatch_def end_index_of_def loader5_def batch_loop.simps getItem_ints5)

lemma nb2: "nextBatch (loader5 2) = (Inr [12, 13], loader5 4)"
  by (simp add: nextBatch_def end_index_of_def loader5_def batch_loop.simps getItem_ints5)

lemma nb4: "nextBatch (loader5 4) = (Inr [14], loader5 5)"
  by (simp add: nextBatch_def end_index_of_def loader5_def batch_loop.simps getItem_ints5)

lemma hn: "hasNext (loader5 0)" "hasNext (loader5 2)" "hasNext (loader5 4)" "\<not> hasNext (loader5 5)"
  by (simp_all add: hasNext_def loader5_def)

lemma epoch5: "epoch (loader5 0) [] = Some (Inr [[10, 11], [12, 13], [14]], loader5 5)"
  by (simp add: epoch.simps hn nb0 nb2 nb4)

lemma nb_max0: "nextBatch (loader5_bs (- 1) 0) = (Inr [10, 11, 12, 13, 14], loader5_bs (- 1) 5)"
  by (simp add: nextBatch_def end_index_of_def loader5_bs_def batch_loop.simps getItem_ints5)

lemma nb_max5: "nextBatch (loader5_bs (- 1) 5) = (Inr [], loader5_bs (- 1) 4)"
  by (simp add: nextBatch_def end_index_of_def loader5_bs_def batch_loop.simps getItem_ints5)

lemma end_max5: "end_index_of (loader5_bs (- 1) 5) = 4"
  by (simp add: end_index_of_def loader5_bs_def)


lemma nb_zero: "nextBatch (loader5_bs 0 0) = (Inr [], loader5_bs 0 0)"
  by (simp add: nextBatch_def end_index_of_def loader5_bs_def batch_loop.simps getItem_ints5)

lemma hn_zero: "hasNext (loader5_bs 0 0)"
  by (simp_all add: hasNext_def loader5_bs_def)

lemma nb5: "nextBatch (loader5 5) = (Inr [], loader5 5)"
  by (simp add: nextBatch_def end_index_of_def loader5_def batch_loop.simps getItem_ints5)

lemma upt02: "[0..<2] = [0, Suc 0]"
  by (simp add: numeral_2_eq_2)

lemma end_loader5: "end_index_of (loader5 0) = 2"
  by (simp add: end_index_of_def loader5_def)

lemma end_flaky: "end_index_of (flaky_loader 0) = 2"
  by (simp add: end_index_of_def flaky_loader_def)

lemma bi_loader5: "batch_indices (loader5 0) = [0, 1]"
  unfolding batch_indices_def end_loader5 by (simp add: loader5_def upt02)

lemma bi_flaky: "batch_indices (flaky_loader 0) = [0, 1]"
  unfolding batch_indices_def end_flaky by (simp add: flaky_loader_def upt02)

lemma nb_flaky: "nextBatch (flaky_loader 0) = (Inl out_of_range, flaky_loader 0)"
  by (simp add: nextBatch_def end_index_of_def flaky_loader_def flaky_def batch_loop.simps)

lemma big_n_wraps: "2147483648 < big_n" "big_n \<le> vector_max_size" "big_n < 2 ^ 64"
  by (simp_all add: big_n_def vector_max_size_def)

lemma unat_size_big: "unat (size_ds big) = big_n"
  by (simp add: big_def IntDataset_def big_n_def)

lemma ctor_big: "DataLoader_ctor big b sh draws = Inr (big_loader b sh)"
  using big_n_wraps(2) by (simp add: ctor_eq unat_size_big big_loader_def)

lemma length_big: "length (indices (big_loader b sh)) = big_n"
  by (simp add: big_loader_def)

lemma big_wrapped_nth: "indices (big_loader b False) ! 2147483648 = 18446744071562067968"
  by (simp add: big_loader_def iota_wrapped [OF big_n_wraps(1)])

lemma big_has_wrapped: "18446744071562067968 \<in> set (indices (big_loader b sh))"
  by (simp add: big_loader_def iota_has_wrapped [OF big_n_wraps(1)])

lemma big_misses: "2147483648 \<notin> set (indices (big_loader b sh))"
  by (simp add: big_loader_def iota_misses)

lemma getItem_big_wrapped: "getItem big 18446744071562067968 = Inl out_of_range"
  by (simp add: big_def IntDataset_def big_n_def)

lemma big_not_perm: "mset (map unat (indices (big_loader b sh))) \<noteq> mset [0..<big_n]"
proof
  assume "mset (map unat (indices (big_loader b sh))) = mset [0..<big_n]"
  then have "set (map unat (indices (big_loader b sh))) = set [0..<big_n]"
    by (metis set_mset_mset)
  moreover have "unat (18446744071562067968 :: size_t) \<in> set (map unat (indices (big_loader b sh)))"
    using big_has_wrapped [of b sh] by (simp only: set_map image_eqI)
  ultimately have "unat (18446744071562067968 :: size_t) < big_n"
    by simp
  then show False
    by (simp add: big_n_def)
qed

lemma big_not_identity: "indices (big_loader b False) \<noteq> map of_nat [0..<big_n]"
  by (simp add: big_loader_def iota_not_identity [OF big_n_wraps(1)])

lemma reset_big: "reset (big_loader b False) g = big_loader b False"
  by (simp add: reset_def big_loader_def)

lemma big_whole_batch:
  assumes "big_n \<le> unat b"
  shows "nextBatch (big_loader b sh) = (Inl out_of_range, big_loader b sh) \<and>
         epoch (big_loader b sh) [] = Some (Inl out_of_range, big_loader b sh)"
proof -
  have "\<exists>e'. nextBatch (big_loader b sh) = (Inl e', big_loader b sh) \<and>
      epoch (big_loader b sh) [] = Some (Inl e', big_loader b sh)"
  proof (rule whole_batch_fails [where i = 18446744071562067968 and e = out_of_range])
    show "current_index (big_loader b sh) = 0"
      by (simp add: big_loader_def)
    show "length (indices (big_loader b sh)) < 2 ^ 64"
      using big_n_wraps(3) by (simp only: length_big)
    show "length (indices (big_loader b sh)) \<le> unat (batch_size (big_loader b sh))"
      using assms by (simp add: length_big) (simp add: big_loader_def)
    show "18446744071562067968 \<in> set (indices (big_loader b sh))"
      by (rule big_has_wrapped)
    show "getItem (dataset (big_loader b sh)) 18446744071562067968 = Inl out_of_range"
      using getItem_big_wrapped by (simp add: big_loader_def)
  qed
  then obtain e' where "nextBatch (big_loader b sh) = (Inl e', big_loader b sh)"
    "epoch (big_loader b sh) [] = Some (Inl e', big_loader b sh)"
    by blast
  then show ?thesis
    by (cases e') simp
qed

section \<open>Datasets of at most \<^verbatim>\<open>INT_MAX + 1\<close> samples\<close>

text \<open>
  As long as the counter of \<^verbatim>\<open>std::iota\<close> does not wrap before its last use, the loader
  does what the specification says. The lemmas of this section state it; the claims on
  epochs and on \<open>indices\<close> fail only above that size.
\<close>

lemma small_shuffled_epoch:
  assumes "DataLoader_ctor ds bs True g = Inr s0" and "bs \<noteq> 0" and "serves ds f"
    and "unat (size_ds ds) \<le> 2147483648"
  shows "\<exists>batches s'. epoch s0 [] = Some (Inr batches, s') \<and> \<not> hasNext s' \<and>
           concat batches = map f (indices s0) \<and>
           mset (map unat (indices s0)) = mset [0..<unat (size_ds ds)]"
proof -
  note inv = ctor_inv [OF assms(1)]
  from assms(2) have "0 < unat bs"
    by (simp add: unat_gt_0)
  then have "concat (chunks (unat bs) (map f (indices s0))) = map f (indices s0)"
    by (rule concat_chunks)
  with ctor_epoch [OF assms] exhausted_after [OF inv] loader_inv_perm [OF inv assms(4)]
  show ?thesis
    by blast
qed

lemma small_unshuffled_epoch:
  assumes ctor: "DataLoader_ctor ds bs False g = Inr s0" and bs: "bs \<noteq> 0" and srv: "serves ds f"
    and le: "unat (size_ds ds) \<le> 2147483648"
  shows "\<exists>batches s'. epoch s0 [] = Some (Inr batches, s') \<and> \<not> hasNext s' \<and>
           concat batches = map f (map of_nat [0..<unat (size_ds ds)])"
proof -
  note inv = ctor_inv [OF ctor]
  from inv ctor_fields [OF ctor] le have idx: "indices s0 = map of_nat [0..<unat (size_ds ds)]"
    by (simp add: loader_inv_def iota_small)
  from bs have "0 < unat bs"
    by (simp add: unat_gt_0)
  then have "concat (chunks (unat bs) (map f (indices s0))) = map f (indices s0)"
    by (rule concat_chunks)
  with ctor_epoch [OF ctor bs srv le] exhausted_after [OF inv] idx show ?thesis
    by metis
qed

text \<open>The scenario of \<^verbatim>\<open>DataLoaderTest.BatchIterationNoShuffle\<close>.\<close>

lemma unit_test_scenario:
  "DataLoader_ctor ints5 2 False g = Inr (loader5 0) \<and>
   hasNext (loader5 0) \<and> nextBatch (loader5 0) = (Inr [10, 11], loader5 2) \<and>
   hasNext (loader5 2) \<and> nextBatch (loader5 2) = (Inr [12, 13], loader5 4) \<and>
   hasNext (loader5 4) \<and> nextBatch (loader5 4) = (Inr [14], loader5 5) \<and>
   \<not> hasNext (loader5 5)"
  by (simp add: ctor_loader5 hn nb0 nb2 nb4)

lemma small_batch_lengths:
  assumes "DataLoader_ctor ds bs sh g = Inr s0" and "bs \<noteq> 0" and "serves ds f"
    and "unat (size_ds ds) \<le> 2147483648"
  shows "\<exists>batches s'. epoch s0 [] = Some (Inr batches, s') \<and> \<not> hasNext s' \<and>
           concat batches = map f (indices s0) \<and>
           sum_list (map length batches) = unat (size_ds ds) \<and>
           (\<forall>k. Suc k < length batches \<longrightarrow> length (batches ! k) = unat bs) \<and>
           (batches \<noteq> [] \<longrightarrow>
              length (last batches) =
                (if unat (size_ds ds) mod unat bs = 0 then unat bs
                 else unat (size_ds ds) mod unat bs)) \<and>
           (batches = [] \<longleftrightarrow> unat (size_ds ds) = 0) \<and>
           length batches =
             unat (size_ds ds) div unat bs + (if unat (size_ds ds) mod unat bs = 0 then 0 else 1) \<and>
           [] \<notin> set batches"
proof -
  note inv = ctor_inv [OF assms(1)]
  let ?xs = "map f (indices s0)"
  let ?B = "unat bs"
  have len: "length ?xs = unat (size_ds ds)"
    by (simp add: loader_inv_length [OF inv])
  from assms(2) have B: "0 < ?B"
    by (simp add: unat_gt_0)
  have cc: "concat (chunks ?B ?xs) = ?xs"
    by (rule concat_chunks [OF B])
  have "sum_list (map length (chunks ?B ?xs)) = unat (size_ds ds)"
    using cc len by (metis length_concat)
  moreover have "\<forall>k. Suc k < length (chunks ?B ?xs) \<longrightarrow> length (chunks ?B ?xs ! k) = ?B"
    by (simp add: length_chunks_nth)
  moreover have "chunks ?B ?xs \<noteq> [] \<longrightarrow> length (last (chunks ?B ?xs)) =
      (if unat (size_ds ds) mod ?B = 0 then ?B else unat (size_ds ds) mod ?B)"
    using length_last_chunks [of ?B ?xs] len by simp
  moreover have "chunks ?B ?xs = [] \<longleftrightarrow> unat (size_ds ds) = 0"
    using B len by (auto simp: chunks_Nil_iff)
  moreover have "length (chunks ?B ?xs) =
      unat (size_ds ds) div ?B + (if unat (size_ds ds) mod ?B = 0 then 0 else 1)"
    using length_chunks [OF B, of ?xs] len by simp
  moreover have "[] \<notin> set (chunks ?B ?xs)"
    using chunks_nonempty by blast
  ultimately show ?thesis
    using ctor_epoch [OF assms] exhausted_after [OF inv] cc
    by - (rule exI, rule exI, intro conjI, assumption+)
qed

lemma small_shuffled_epoch_example:
  "\<exists>batches s'.
      epoch \<lparr>dataset = ints5, batch_size = 2, shuffle = True,
             indices = [1, 0, 3, 4, 2], current_index = 0\<rparr> [] = Some (Inr batches, s') \<and>
      \<not> hasNext s' \<and> concat batches = [11, 10, 13, 14, 12]"
proof -
  have nz: "(2 :: size_t) \<noteq> 0"
    by simp
  show ?thesis
    using small_shuffled_epoch [OF ctor_shuffled nz ints5_serves ints5_small]
    by auto
qed

text \<open>The cursor stays within \<open>0..N\<close> on every loader, whatever the size of the dataset.\<close>

lemma cursor_invariants:
  assumes "DataLoader_ctor ds bs sh g = Inr s0"
  shows "length (indices (run s0 calls)) = unat (size_ds ds) \<and>
         current_index (run s0 calls) \<le> size_ds ds \<and>
         (\<not> hasNext (run s0 calls) \<longleftrightarrow> current_index (run s0 calls) = size_ds ds)"
proof -
  have inv: "loader_inv ds (run s0 calls)"
    by (rule run_inv [OF ctor_inv [OF assms]])
  then have le: "current_index (run s0 calls) \<le> size_ds ds"
    by (simp add: loader_inv_def)
  then have "\<not> hasNext (run s0 calls) \<longleftrightarrow> current_index (run s0 calls) = size_ds ds"
    unfolding loader_inv_hasNext [OF inv] by auto
  with le loader_inv_length [OF inv] show ?thesis
    by simp
qed

lemma small_indices_permutation:
  assumes "DataLoader_ctor ds bs sh g = Inr s0" and "unat (size_ds ds) \<le> 2147483648"
  shows "mset (map unat (indices (run s0 calls))) = mset [0..<unat (size_ds ds)] \<and>
         (\<not> shuffle (run s0 calls) \<longrightarrow>
            indices (run s0 calls) = map of_nat [0..<unat (size_ds ds)])"
proof -
  have inv: "loader_inv ds (run s0 calls)"
    by (rule run_inv [OF ctor_inv [OF assms(1)]])
  then have "\<not> shuffle (run s0 calls) \<longrightarrow>
      indices (run s0 calls) = map of_nat [0..<unat (size_ds ds)]"
    using assms(2) by (simp add: loader_inv_def iota_small)
  with loader_inv_perm [OF inv assms(2)] show ?thesis
    by simp
qed

text \<open>What \<^verbatim>\<open>reset\<close> does, in every state and on every loader.\<close>

lemma reset_every_state:
  "current_index (reset s g) = 0 \<and>
   (hasNext (reset s g) \<longleftrightarrow> (0 :: size_t) < of_nat (length (indices s))) \<and>
   (\<not> shuffle s \<longrightarrow> indices (reset s g) = indices s) \<and>
   batch_size (reset s g) = batch_size s \<and> shuffle (reset s g) = shuffle s \<and>
   dataset (reset s g) = dataset s"
  by (simp add: reset_def Let_def hasNext_def)

lemma reset_hasNext:
  assumes "DataLoader_ctor ds bs sh g = Inr s0"
  shows "hasNext (reset (run s0 calls) g') \<longleftrightarrow> 0 < size_ds ds"
proof -
  have inv: "loader_inv ds (run s0 calls)"
    by (rule run_inv [OF ctor_inv [OF assms]])
  show ?thesis
    by (simp add: loader_inv_hasNext [OF reset_inv [OF inv]] reset_fields)
qed

section \<open>The claims\<close>

text \<open>
  C1 fails on the code for a dataset of \<^verbatim>\<open>INT_MAX + 3\<close> samples. The constructor returns a
  loader with shuffling on whose \<open>indices\<close> hold \<open>2^64 - 2^31\<close> and do not hold \<open>2^31\<close>, so
  they are no permutation of \<open>0..N-1\<close>; with a batch that takes in the whole dataset the
  epoch ends with the \<^verbatim>\<open>std::out_of_range\<close> of \<^verbatim>\<open>getItem\<close> at that index, and no batch is
  produced.
\<close>

theorem shuffled_epoch_on_big_dataset:
  "DataLoader_ctor big 2147483650 True draws = Inr (big_loader 2147483650 True) \<and>
   unat (size_ds big) = big_n \<and> 2147483648 < big_n \<and>
   18446744071562067968 \<in> set (indices (big_loader 2147483650 True)) \<and>
   2147483648 \<notin> set (indices (big_loader 2147483650 True)) \<and>
   mset (map unat (indices (big_loader 2147483650 True))) \<noteq> mset [0..<big_n] \<and>
   epoch (big_loader 2147483650 True) [] =
     Some (Inl out_of_range, big_loader 2147483650 True)"
proof -
  have "big_n \<le> unat (2147483650 :: size_t)"
    by (simp add: big_n_def)
  then show ?thesis
    by (intro conjI ctor_big unat_size_big big_n_wraps(1) big_has_wrapped big_misses
        big_not_perm big_whole_batch [THEN conjunct2])
qed

text \<open>
  C2 fails on the code for a dataset of \<^verbatim>\<open>INT_MAX + 3\<close> samples. Without shuffling the
  constructor returns a loader whose \<open>indices\<close> are not \<open>0, 1, ..., N-1\<close>: position \<open>2^31\<close>
  holds \<open>2^64 - 2^31\<close>. With a batch that takes in the whole dataset the epoch ends with the
  \<^verbatim>\<open>std::out_of_range\<close> of \<^verbatim>\<open>getItem\<close> at that index instead of yielding the samples in
  their order.
\<close>

theorem unshuffled_epoch_on_big_dataset:
  "DataLoader_ctor big 2147483650 False draws = Inr (big_loader 2147483650 False) \<and>
   unat (size_ds big) = big_n \<and> 2147483648 < big_n \<and>
   indices (big_loader 2147483650 False) ! 2147483648 = 18446744071562067968 \<and>
   indices (big_loader 2147483650 False) \<noteq> map of_nat [0..<big_n] \<and>
   getItem big 18446744071562067968 = Inl out_of_range \<and>
   epoch (big_loader 2147483650 False) [] =
     Some (Inl out_of_range, big_loader 2147483650 False)"
proof -
  have "big_n \<le> unat (2147483650 :: size_t)"
    by (simp add: big_n_def)
  then show ?thesis
    by (intro conjI ctor_big unat_size_big big_n_wraps(1) big_wrapped_nth big_not_identity
        getItem_big_wrapped big_whole_batch [THEN conjunct2])
qed

text \<open>
  C3 fails on the code for a dataset of \<^verbatim>\<open>INT_MAX + 3\<close> samples that throws outside its
  range. With the batch size \<^verbatim>\<open>SIZE_MAX\<close> the epoch should be one batch of \<open>N\<close> samples; the
  loader has a next batch, but the call of \<^verbatim>\<open>nextBatch\<close> throws \<^verbatim>\<open>std::out_of_range\<close> and
  the epoch ends there with no batch at all, so the batch lengths do not add up to \<open>N\<close>.
\<close>

theorem batch_lengths_on_big_dataset:
  "DataLoader_ctor big (- 1) False draws = Inr (big_loader (- 1) False) \<and>
   unat (size_ds big) = big_n \<and> 2147483648 < big_n \<and>
   hasNext (big_loader (- 1) False) \<and>
   nextBatch (big_loader (- 1) False) = (Inl out_of_range, big_loader (- 1) False) \<and>
   epoch (big_loader (- 1) False) [] = Some (Inl out_of_range, big_loader (- 1) False)"
proof -
  have "big_n \<le> unat (- 1 :: size_t)"
    by (simp add: big_n_def unsigned_minus_1_eq_mask mask_eq_exp_minus_1)
  moreover have "hasNext (big_loader (- 1) False)"
    using big_n_wraps by (simp add: hasNext_iff length_big) (simp add: big_loader_def)
  ultimately show ?thesis
    by (intro conjI ctor_big unat_size_big big_n_wraps(1) big_whole_batch [THEN conjunct1]
        big_whole_batch [THEN conjunct2])
qed

text \<open>
  C4 fails on the code for a dataset of \<^verbatim>\<open>INT_MAX + 3\<close> samples. On the loader that the
  constructor returns, \<open>indices\<close> has the length \<open>N\<close>, but position \<open>2^31\<close> holds
  \<open>2^64 - 2^31\<close>, which is no index of the dataset, so \<open>indices\<close> is no permutation of
  \<open>0..N-1\<close>. The cursor part of the claim holds on this loader too.
\<close>

theorem invariants_on_big_dataset:
  "DataLoader_ctor big 1 False draws = Inr (big_loader 1 False) \<and>
   unat (size_ds big) = big_n \<and> 2147483648 < big_n \<and>
   length (indices (big_loader 1 False)) = big_n \<and>
   indices (big_loader 1 False) ! 2147483648 = 18446744071562067968 \<and>
   2147483648 \<notin> set (indices (big_loader 1 False)) \<and>
   mset (map unat (indices (big_loader 1 False))) \<noteq> mset [0..<big_n] \<and>
   current_index (big_loader 1 False) \<le> size_ds big"
proof -
  have "current_index (big_loader 1 False) \<le> size_ds big"
    by (simp add: big_loader_def)
  then show ?thesis
    by (intro conjI ctor_big unat_size_big big_n_wraps(1) length_big big_wrapped_nth big_misses
        big_not_perm)
qed

text \<open>
  C9 fails on the code for a dataset of \<^verbatim>\<open>INT_MAX + 3\<close> samples, in its remark that the
  order is still the identity. On the loader that the constructor returns without
  shuffling, \<^verbatim>\<open>reset\<close> changes nothing, as the claim says, but the order it leaves is not
  \<open>0, 1, ..., N-1\<close>: position \<open>2^31\<close> holds \<open>2^64 - 2^31\<close>.
\<close>

theorem reset_on_big_dataset:
  "DataLoader_ctor big 1 False draws = Inr (big_loader 1 False) \<and>
   unat (size_ds big) = big_n \<and> 2147483648 < big_n \<and>
   shuffle (big_loader 1 False) = False \<and>
   reset (big_loader 1 False) draws = big_loader 1 False \<and>
   indices (reset (big_loader 1 False) draws) ! 2147483648 = 18446744071562067968 \<and>
   indices (reset (big_loader 1 False) draws) \<noteq> map of_nat [0..<big_n]"
  by (simp add: ctor_big unat_size_big big_n_wraps(1) reset_big big_wrapped_nth big_not_identity)
    (simp add: big_loader_def)

text \<open>
  C8. Without shuffling the traversal is deterministic. Two loaders built on the same dataset
  with the same batch size and \<open>shuffle = False\<close>, whatever the random draws, run the same
  epoch: the same batches in the same order, ending in the same state; and a loader that is
  reset after its epoch runs that epoch again.
\<close>

theorem unshuffled_traversal_deterministic:
  assumes "DataLoader_ctor ds bs False g1 = Inr s1"
    and "DataLoader_ctor ds bs False g2 = Inr s2"
    and "epoch s1 [] = Some (r, s1')"
  shows "epoch s2 [] = Some (r, s1') \<and> epoch (reset s1' g3) [] = Some (r, s1')"
proof -
  have eq: "s2 = s1"
    using assms(1,2) by (rule ctor_unshuffled_rng [symmetric])
  from epoch_cursor_only [OF assms(3)] obtain c where c: "s1' = s1\<lparr>current_index := c\<rparr>"
    by auto
  from ctor_fields [OF assms(1)] have "shuffle s1 = False" "current_index s1 = 0"
    by simp_all
  then have "reset s1' g3 = s1"
    by (simp add: reset_def c)
  with eq assms(3) show ?thesis
    by simp
qed

theorem unshuffled_traversal_deterministic_witness:
  "DataLoader_ctor ints5 2 False draws = Inr (loader5 0) \<and>
   DataLoader_ctor ints5 2 False (\<lambda>i. 0) = Inr (loader5 0) \<and>
   epoch (loader5 0) [] = Some (Inr [[10, 11], [12, 13], [14]], loader5 5) \<and>
   epoch (reset (loader5 5) draws) [] = Some (Inr [[10, 11], [12, 13], [14]], loader5 5)"
  using unshuffled_traversal_deterministic [OF ctor_loader5 ctor_loader5 epoch5, where ?g3.0 = draws]
  by (simp add: ctor_loader5 epoch5)

text \<open>
  C5, as stated, fails: the constructor has no check of the batch size. On the dataset
  \<open>[10,11,12,13,14]\<close> with batch size 0 it returns a loader, on which \<^verbatim>\<open>hasNext\<close> is true and
  \<^verbatim>\<open>nextBatch\<close> returns an empty batch and leaves the loader as it was.
\<close>

theorem batch_size_zero_accepted_counterexample:
  "DataLoader_ctor ints5 0 False draws = Inr (loader5_bs 0 0) \<and>
   \<not> isl (DataLoader_ctor ints5 0 False draws) \<and>
   hasNext (loader5_bs 0 0) \<and> nextBatch (loader5_bs 0 0) = (Inr [], loader5_bs 0 0)"
  by (simp add: ctor_loader5_bs hn_zero nb_zero)

text \<open>
  C5, amended. The constructor does not look at the batch size: with the batch size 0 it
  fails only where it fails with any other batch size, and the loader it returns stores
  the batch size 0 with the cursor at 0. On that loader \<^verbatim>\<open>hasNext\<close> is true whenever the
  dataset is not empty, and \<^verbatim>\<open>nextBatch\<close> returns an empty batch and leaves the loader as it
  was.
\<close>

theorem constructor_ignores_batch_size:
  "(isl (DataLoader_ctor ds 0 sh g) \<longleftrightarrow> isl (DataLoader_ctor ds bs sh g)) \<and>
   (\<forall>s. DataLoader_ctor ds 0 sh g = Inr s \<longrightarrow>
      batch_size s = 0 \<and> current_index s = 0 \<and>
      (hasNext s \<longleftrightarrow> 0 < size_ds ds) \<and> nextBatch s = (Inr [], s))"
proof -
  have "isl (DataLoader_ctor ds 0 sh g) \<longleftrightarrow> isl (DataLoader_ctor ds bs sh g)"
    by (simp add: ctor_eq)
  moreover have "batch_size s = 0 \<and> current_index s = 0 \<and>
      (hasNext s \<longleftrightarrow> 0 < size_ds ds) \<and> nextBatch s = (Inr [], s)"
    if ctor: "DataLoader_ctor ds 0 sh g = Inr s" for s
  proof -
    note f = ctor_fields [OF ctor]
    have "end_index_of s = current_index s"
      using f by (simp add: end_index_of_def)
    from no_indices_nextBatch [OF end_eq_cursor_no_indices [OF this]] this
    have "nextBatch s = (Inr [], s)"
      by simp
    with f loader_inv_hasNext [OF ctor_inv [OF ctor]] show ?thesis
      by simp
  qed
  ultimately show ?thesis
    by blast
qed

theorem constructor_ignores_batch_size_witness:
  "\<not> isl (DataLoader_ctor ints5 0 False draws) \<and> \<not> isl (DataLoader_ctor ints5 2 False draws) \<and>
   DataLoader_ctor ints5 0 False draws = Inr (loader5_bs 0 0) \<and>
   batch_size (loader5_bs 0 0) = 0 \<and> current_index (loader5_bs 0 0) = 0 \<and>
   hasNext (loader5_bs 0 0) \<and> nextBatch (loader5_bs 0 0) = (Inr [], loader5_bs 0 0)"
  using constructor_ignores_batch_size [of ints5 False draws 2]
  by (simp add: ctor_loader5_bs size_ints5)

text \<open>
  C6, as stated, fails: \<^verbatim>\<open>nextBatch\<close> has no guard. On the exhausted loader of the unit test
  it returns an empty batch and no error.
\<close>

theorem exhausted_nextBatch_returns_counterexample:
  "\<not> hasNext (loader5 5) \<and> nextBatch (loader5 5) = (Inr [], loader5 5) \<and>
   \<not> isl (fst (nextBatch (loader5 5)))"
  by (simp add: hn nb5)

text \<open>
  C6, amended. On every exhausted loader (\<^verbatim>\<open>hasNext\<close> false) \<^verbatim>\<open>nextBatch\<close> does not fail: it
  returns an empty batch, and it passes no index to \<^verbatim>\<open>getItem\<close>.
\<close>

theorem exhausted_nextBatch_empty:
  assumes "\<not> hasNext s"
  shows "fst (nextBatch s) = Inr [] \<and> batch_indices s = []"
  using exhausted_no_indices [OF assms] by (simp add: no_indices_nextBatch)

theorem exhausted_nextBatch_empty_witness:
  "\<not> hasNext (loader5 5) \<and> fst (nextBatch (loader5 5)) = Inr [] \<and> batch_indices (loader5 5) = []"
proof -
  have h: "\<not> hasNext (loader5 5)"
    by (simp add: hn)
  show ?thesis
    using exhausted_nextBatch_empty [OF h] h by simp
qed




text \<open>
  C10, as stated, fails in a state where \<^verbatim>\<open>current_index_ + batch_size_\<close> wraps around. The
  loader on \<open>[10,11,12,13,14]\<close> with batch size \<^verbatim>\<open>SIZE_MAX\<close> has its cursor at 5 after the
  first batch; the next call computes \<open>end_index = 4\<close>, every \<^verbatim>\<open>getItem\<close> call of the batch
  succeeds (there is none), the batch returned has length 0, which is not \<open>4 - 5\<close>, and the
  cursor goes back from 5 to 4.
\<close>

theorem wrapped_batch_counterexample:
  "DataLoader_ctor ints5 (- 1) False draws = Inr (loader5_bs (- 1) 0) \<and>
   nextBatch (loader5_bs (- 1) 0) = (Inr [10, 11, 12, 13, 14], loader5_bs (- 1) 5) \<and>
   current_index (loader5_bs (- 1) 5) = 5 \<and>
   end_index_of (loader5_bs (- 1) 5) = 4 \<and>
   nextBatch (loader5_bs (- 1) 5) = (Inr [], loader5_bs (- 1) 4) \<and>
   int (length ([] :: int list)) \<noteq>
     uint (end_index_of (loader5_bs (- 1) 5)) - uint (current_index (loader5_bs (- 1) 5)) \<and>
   current_index (snd (nextBatch (loader5_bs (- 1) 5))) < current_index (loader5_bs (- 1) 5)"
  by (simp add: ctor_loader5_bs nb_max0 nb_max5 end_max5) (simp add: loader5_bs_def)

text \<open>
  C10, amended. One call of \<^verbatim>\<open>nextBatch\<close> yields all of its batch or nothing, in every state.
  If \<^verbatim>\<open>getItem\<close> succeeds on each index of the batch, the call returns the samples of
  exactly these indices, in order, and sets the cursor to \<open>end_index\<close>; the batch then has
  length \<open>end_index - current_index_\<close> whenever \<open>current_index_ \<le> end_index\<close>, that is,
  unless the sum wrapped around. If \<^verbatim>\<open>getItem\<close> fails on some index of the batch, the call
  fails, returns no batch and leaves the loader as it was.
\<close>

theorem nextBatch_all_or_nothing:
  "((\<forall>i \<in> set (batch_indices s). \<exists>x. getItem (dataset s) i = Inr x) \<longrightarrow>
      (\<exists>batch. nextBatch s = (Inr batch, s\<lparr>current_index := end_index_of s\<rparr>) \<and>
         map Inr batch = map (getItem (dataset s)) (batch_indices s) \<and>
         (current_index s \<le> end_index_of s \<longrightarrow>
            unat (current_index s) + length batch = unat (end_index_of s)))) \<and>
   ((\<exists>i \<in> set (batch_indices s). \<exists>e. getItem (dataset s) i = Inl e) \<longrightarrow>
      (\<exists>e. nextBatch s = (Inl e, s)))"
proof (intro conjI impI)
  assume ok: "\<forall>i \<in> set (batch_indices s). \<exists>x. getItem (dataset s) i = Inr x"
  let ?h = "\<lambda>i. projr (getItem (dataset s) i)"
  from ok have all: "\<forall>i \<in> set (batch_indices s). getItem (dataset s) i = Inr (?h i)"
    by auto
  then have "collect (getItem (dataset s)) (batch_indices s) = Inr (map ?h (batch_indices s))"
    by (rule collect_ok)
  then have nb: "nextBatch s =
      (Inr (map ?h (batch_indices s)), s\<lparr>current_index := end_index_of s\<rparr>)"
    by (simp add: nextBatch_collect)
  have m: "map Inr (map ?h (batch_indices s)) = map (getItem (dataset s)) (batch_indices s)"
    using all by simp
  have len: "current_index s \<le> end_index_of s \<longrightarrow>
      unat (current_index s) + length (map ?h (batch_indices s)) = unat (end_index_of s)"
    by (simp add: length_batch_indices word_le_nat_alt)
  show "\<exists>batch. nextBatch s = (Inr batch, s\<lparr>current_index := end_index_of s\<rparr>) \<and>
         map Inr batch = map (getItem (dataset s)) (batch_indices s) \<and>
         (current_index s \<le> end_index_of s \<longrightarrow>
            unat (current_index s) + length batch = unat (end_index_of s))"
    by (intro exI [of _ "map ?h (batch_indices s)"] conjI) (rule nb, rule m, rule len)
next
  assume "\<exists>i \<in> set (batch_indices s). \<exists>e. getItem (dataset s) i = Inl e"
  then obtain i e where ie: "i \<in> set (batch_indices s)" "getItem (dataset s) i = Inl e"
    by blast
  from collect_Inl [of i "batch_indices s" "getItem (dataset s)" e, OF ie]
  obtain e' where "collect (getItem (dataset s)) (batch_indices s) = Inl e'" ..
  then show "\<exists>e. nextBatch s = (Inl e, s)"
    by (simp add: nextBatch_collect)
qed

theorem nextBatch_all_or_nothing_witness:
  "batch_indices (loader5 0) = [0, 1] \<and>
   getItem (dataset (loader5 0)) 0 = Inr 10 \<and> getItem (dataset (loader5 0)) 1 = Inr 11 \<and>
   current_index (loader5 0) \<le> end_index_of (loader5 0) \<and>
   (\<exists>batch. nextBatch (loader5 0) = (Inr batch, loader5 2) \<and>
      map Inr batch = [Inr 10, Inr 11 :: std_exception + int] \<and> length batch = 2) \<and>
   (\<exists>i \<in> set (batch_indices (flaky_loader 0)). \<exists>e. getItem (dataset (flaky_loader 0)) i = Inl e) \<and>
   (\<exists>e. nextBatch (flaky_loader 0) = (Inl e, flaky_loader 0))"
proof -
  have a: "\<forall>i \<in> set (batch_indices (loader5 0)). \<exists>x. getItem (dataset (loader5 0)) i = Inr x"
    by (simp add: bi_loader5) (simp add: loader5_def getItem_ints5)
  have b: "current_index (loader5 0) \<le> end_index_of (loader5 0)"
    by (simp add: end_loader5) (simp add: loader5_def)
  have c: "\<exists>i \<in> set (batch_indices (flaky_loader 0)). \<exists>e. getItem (dataset (flaky_loader 0)) i = Inl e"
    by (simp add: bi_flaky) (simp add: flaky_loader_def flaky_def)
  have u: "loader5 0\<lparr>current_index := 2\<rparr> = loader5 2" "dataset (loader5 0) = ints5"
    "unat (current_index (loader5 0)) = 0"
    by (simp_all add: loader5_def)
  from nextBatch_all_or_nothing [of "loader5 0", THEN conjunct1, THEN mp, OF a] b
  have h1: "\<exists>batch. nextBatch (loader5 0) = (Inr batch, loader5 2) \<and>
      map Inr batch = [Inr 10, Inr 11 :: std_exception + int] \<and> length batch = 2"
    by (simp add: end_loader5 u bi_loader5 getItem_ints5)
  have h2: "\<exists>e. nextBatch (flaky_loader 0) = (Inl e, flaky_loader 0)"
    by (rule nextBatch_all_or_nothing [of "flaky_loader 0", THEN conjunct2, THEN mp, OF c])
  have g: "getItem (dataset (loader5 0)) 0 = Inr 10" "getItem (dataset (loader5 0)) 1 = Inr 11"
    by (simp_all add: u getItem_ints5)
  show ?thesis
    using bi_loader5 g b h1 c h2 by - (intro conjI; assumption)
qed

end
